theory Spec2Isabelle
  imports Complex_Main "HOL-Library.Word" "HOL-Library.Sublist"
begin

section \<open>Tensors as values\<close>

text \<open>
  The notebooks call into the tensor library; a tensor is modelled by what the library
  documents of it: a shape and the elements in row-major order. A vector of \<open>n\<close>
  elements has shape \<open>[n]\<close>, a matrix of \<open>r\<close> rows and \<open>c\<close> columns has shape
  \<open>[r, c]\<close>, a scalar has shape \<open>[]\<close>.
\<close>

datatype error = IndexError | RuntimeError | ZeroDivisionError

record 'a tensor =
  shape :: "nat list"
  data :: "'a list"

text \<open>The number of elements a shape announces, and the tensors that hold exactly that many.\<close>

definition numel :: "'a tensor \<Rightarrow> nat" where
  "numel t = prod_list (shape t)"

definition well_shaped :: "'a tensor \<Rightarrow> bool" where
  "well_shaped t = (length (data t) = numel t)"

text \<open>
  Python's slice bounds for a dimension of length \<open>n\<close> (step 1): a negative bound counts
  from the end, and every bound is clamped to \<open>0..n\<close>. A slice never raises.
\<close>

definition slice_index :: "nat \<Rightarrow> int \<Rightarrow> nat" where
  "slice_index n i =
     (if i < 0 then (if i + int n < 0 then 0 else nat (i + int n))
      else if int n < i then n else nat i)"

text \<open>
  \<^verbatim>\<open>t[start:stop]\<close> and, with \<open>None\<close> for the upper bound, \<^verbatim>\<open>t[start::]\<close>: the
  slice along dimension 0. A scalar cannot be sliced. An empty slice is an empty tensor:
  the notebook's own cells slice \<^verbatim>\<open>ori_vec[0:0]\<close>.
\<close>

definition slice_t :: "'a tensor \<Rightarrow> int \<Rightarrow> int option \<Rightarrow> error + 'a tensor" where
  "slice_t t start stop =
     (case shape t of
        [] \<Rightarrow> Inl IndexError
      | n # rest \<Rightarrow>
          let lo = slice_index n start;
              hi = (case stop of None \<Rightarrow> n | Some s \<Rightarrow> slice_index n s);
              len = hi - lo;
              r = prod_list rest
          in Inr \<lparr>shape = len # rest, data = take (len * r) (drop (lo * r) (data t))\<rparr>)"

text \<open>
  \<^verbatim>\<open>torch.cat(ts, 0)\<close>: concatenation along dimension 0. The list must not be empty;
  vectors of shape \<open>[0]\<close> are skipped; the others must agree on every dimension but the
  first, and a scalar cannot be concatenated.
\<close>

definition cat :: "'a tensor list \<Rightarrow> error + 'a tensor" where
  "cat ts =
     (if ts = [] then Inl RuntimeError
      else case filter (\<lambda>t. shape t \<noteq> [0]) ts of
        [] \<Rightarrow> Inr \<lparr>shape = [0], data = []\<rparr>
      | t # us \<Rightarrow>
          (case shape t of
             [] \<Rightarrow> Inl RuntimeError
           | n # rest \<Rightarrow>
               if list_all (\<lambda>u. shape u \<noteq> [] \<and> tl (shape u) = rest) us
               then Inr \<lparr>shape = sum_list (map (\<lambda>u. hd (shape u)) (t # us)) # rest,
                         data = concat (map data (t # us))\<rparr>
               else Inl RuntimeError))"

text \<open>\<^verbatim>\<open>t.unsqueeze(0)\<close>: the same elements under a new leading dimension of size 1.\<close>

definition unsqueeze :: "'a tensor \<Rightarrow> 'a tensor" where
  "unsqueeze t = \<lparr>shape = 1 # shape t, data = data t\<rparr>"

text \<open>\<^verbatim>\<open>t[k]\<close> for a non-negative \<open>k\<close>: entry \<open>k\<close> along dimension 0.\<close>

definition select :: "'a tensor \<Rightarrow> nat \<Rightarrow> error + 'a tensor" where
  "select t k =
     (case shape t of
        [] \<Rightarrow> Inl IndexError
      | n # rest \<Rightarrow>
          if k < n
          then Inr \<lparr>shape = rest,
                    data = take (prod_list rest) (drop (k * prod_list rest) (data t))\<rparr>
          else Inl IndexError)"

section \<open>The differential-privacy notebook\<close>

text \<open>
  \<^verbatim>\<open>ori_vec = (torch.rand(5000) > 0.5)\<close>: the comparison of a vector of random numbers
  with one half, elementwise, as a vector of bytes.
\<close>

definition gt :: "real list \<Rightarrow> real \<Rightarrow> 8 word tensor" where
  "gt xs c = \<lparr>shape = [length xs], data = map (\<lambda>x. if c < x then 1 else 0) xs\<rparr>"

definition ori_vec :: "real list \<Rightarrow> 8 word tensor" where
  "ori_vec rand = gt rand 0.5"

text \<open>
  \<^verbatim>\<open>new_db = torch.cat((ori_vec[0:seq], ori_vec[seq+1::]), 0)\<close>
\<close>

definition new_db :: "'a tensor \<Rightarrow> int \<Rightarrow> error + 'a tensor" where
  "new_db v seq =
     (case slice_t v 0 (Some seq) of
        Inl e \<Rightarrow> Inl e
      | Inr a \<Rightarrow>
          (case slice_t v (seq + 1) None of
             Inl e \<Rightarrow> Inl e
           | Inr b \<Rightarrow> cat [a, b]))"

text \<open>\<^verbatim>\<open>range(n)\<close>\<close>

definition py_range :: "nat \<Rightarrow> int list" where
  "py_range n = map int [0..<n]"

text \<open>
  \<^verbatim>\<open>for i in range(5000): db = ori_vec[0: i]\<close>. The variable \<open>db\<close> is unbound
  before the first iteration.
\<close>

fun prefix_loop :: "'a tensor \<Rightarrow> int list \<Rightarrow> 'a tensor option \<Rightarrow> error + 'a tensor option" where
  "prefix_loop v [] db = Inr db"
| "prefix_loop v (i # is) db =
     (case slice_t v 0 (Some i) of
        Inl e \<Rightarrow> Inl e
      | Inr d \<Rightarrow> prefix_loop v is (Some d))"

definition db_prefix :: "'a tensor \<Rightarrow> error + 'a tensor option" where
  "db_prefix v = prefix_loop v (py_range 5000) None"

text \<open>
  \<^verbatim>\<open>random_seq_index = torch.LongTensor(5000).random_(0, 5000)\<close>: what the generator
  may return for \<^verbatim>\<open>torch.LongTensor(n).random_(lo, hi)\<close> is any \<open>n\<close> integers of
  \<open>[lo, hi)\<close>.
\<close>

definition drawn :: "nat \<Rightarrow> int \<Rightarrow> int \<Rightarrow> int list \<Rightarrow> bool" where
  "drawn n lo hi idx = (length idx = n \<and> list_all (\<lambda>s. lo \<le> s \<and> s < hi) idx)"

text \<open>
  \<^verbatim>\<open>
  randomized_db = []
  for seq in random_seq_index:
      new_db = torch.cat((ori_vec[0:seq], ori_vec[seq+1::]), 0)
      randomized_db.append(new_db.unsqueeze(0))
  randomized_db_torch = torch.cat(randomized_db)
  \<close>
\<close>

fun db_loop :: "'a tensor \<Rightarrow> int list \<Rightarrow> 'a tensor list \<Rightarrow> error + 'a tensor list" where
  "db_loop v [] randomized_db = Inr randomized_db"
| "db_loop v (seq # rest) randomized_db =
     (case new_db v seq of
        Inl e \<Rightarrow> Inl e
      | Inr d \<Rightarrow> db_loop v rest (randomized_db @ [unsqueeze d]))"

definition randomized_db :: "'a tensor \<Rightarrow> int list \<Rightarrow> error + 'a tensor list" where
  "randomized_db v random_seq_index = db_loop v random_seq_index []"

definition randomized_db_torch :: "'a tensor \<Rightarrow> int list \<Rightarrow> error + 'a tensor" where
  "randomized_db_torch v random_seq_index =
     (case randomized_db v random_seq_index of
        Inl e \<Rightarrow> Inl e
      | Inr dbs \<Rightarrow> cat dbs)"

text \<open>The vector \<open>v\<close> without its record \<open>i\<close>.\<close>

definition without :: "'a list \<Rightarrow> nat \<Rightarrow> 'a list" where
  "without xs i = take i xs @ drop (Suc i) xs"

text \<open>The database the loop appends for the index \<open>s\<close>, when \<open>s\<close> is in range.\<close>

definition row_of :: "'a tensor \<Rightarrow> int \<Rightarrow> 'a tensor" where
  "row_of v s = \<lparr>shape = [1, length (data v) - 1], data = without (data v) (nat s)\<rparr>"

section \<open>Tensors as views of storage\<close>

text \<open>
  A tensor object of the library is a view: a storage, an offset into it and a size.
  Slicing and \<^verbatim>\<open>unsqueeze\<close> return a view of the same storage; \<^verbatim>\<open>torch.cat\<close>
  allocates a new storage for its result. The store maps addresses to storages; an
  allocation takes the next free address. All views of the notebook are contiguous.
\<close>

type_synonym 'a store = "'a list list"

record view =
  storage :: nat
  offset :: nat
  dims :: "nat list"

definition valid :: "'a store \<Rightarrow> view \<Rightarrow> bool" where
  "valid st t =
     (storage t < length st \<and> offset t + prod_list (dims t) \<le> length (st ! storage t))"

text \<open>The value a view denotes in a store.\<close>

definition read :: "'a store \<Rightarrow> view \<Rightarrow> 'a tensor" where
  "read st t =
     \<lparr>shape = dims t, data = take (prod_list (dims t)) (drop (offset t) (st ! storage t))\<rparr>"

definition slice_view :: "view \<Rightarrow> int \<Rightarrow> int option \<Rightarrow> error + view" where
  "slice_view t start stop =
     (case dims t of
        [] \<Rightarrow> Inl IndexError
      | n # rest \<Rightarrow>
          let lo = slice_index n start;
              hi = (case stop of None \<Rightarrow> n | Some s \<Rightarrow> slice_index n s);
              len = hi - lo;
              r = prod_list rest
          in Inr \<lparr>storage = storage t, offset = offset t + lo * r, dims = len # rest\<rparr>)"

definition unsqueeze_view :: "view \<Rightarrow> view" where
  "unsqueeze_view t = t\<lparr>dims := 1 # dims t\<rparr>"

definition cat_st :: "'a store \<Rightarrow> view list \<Rightarrow> error + ('a store \<times> view)" where
  "cat_st st ts =
     (case cat (map (read st) ts) of
        Inl e \<Rightarrow> Inl e
      | Inr r \<Rightarrow> Inr (st @ [data r], \<lparr>storage = length st, offset = 0, dims = shape r\<rparr>))"

definition new_db_st :: "'a store \<Rightarrow> view \<Rightarrow> int \<Rightarrow> error + ('a store \<times> view)" where
  "new_db_st st v seq =
     (case slice_view v 0 (Some seq) of
        Inl e \<Rightarrow> Inl e
      | Inr a \<Rightarrow>
          (case slice_view v (seq + 1) None of
             Inl e \<Rightarrow> Inl e
           | Inr b \<Rightarrow> cat_st st [a, b]))"

fun db_loop_st ::
  "view \<Rightarrow> int list \<Rightarrow> 'a store \<times> view list \<Rightarrow> error + ('a store \<times> view list)" where
  "db_loop_st v [] (st, dbs) = Inr (st, dbs)"
| "db_loop_st v (seq # rest) (st, dbs) =
     (case new_db_st st v seq of
        Inl e \<Rightarrow> Inl e
      | Inr (st', d) \<Rightarrow> db_loop_st v rest (st', dbs @ [unsqueeze_view d]))"

definition parallel_dbs_st ::
  "'a store \<Rightarrow> view \<Rightarrow> int list \<Rightarrow> error + ('a store \<times> view list \<times> view)" where
  "parallel_dbs_st st v random_seq_index =
     (case db_loop_st v random_seq_index (st, []) of
        Inl e \<Rightarrow> Inl e
      | Inr (st', dbs) \<Rightarrow>
          (case cat_st st' dbs of
             Inl e \<Rightarrow> Inl e
           | Inr (st'', t) \<Rightarrow> Inr (st'', dbs, t)))"

text \<open>What a run shows: the values of the databases and of the stacked tensor, or the error.\<close>

definition observe ::
  "error + ('a store \<times> view list \<times> view) \<Rightarrow> error + ('a tensor list \<times> 'a tensor)" where
  "observe r =
     (case r of
        Inl e \<Rightarrow> Inl e
      | Inr (st, dbs, t) \<Rightarrow> Inr (map (read st) dbs, read st t))"

text \<open>The same run on values.\<close>

definition parallel_dbs :: "'a tensor \<Rightarrow> int list \<Rightarrow> error + ('a tensor list \<times> 'a tensor)" where
  "parallel_dbs v random_seq_index =
     (case randomized_db v random_seq_index of
        Inl e \<Rightarrow> Inl e
      | Inr dbs \<Rightarrow> (case cat dbs of Inl e \<Rightarrow> Inl e | Inr t \<Rightarrow> Inr (dbs, t)))"

section \<open>The training notebook\<close>

text \<open>
  The elements of the network's tensors are floating-point numbers. Their arithmetic is
  a parameter: whatever is proved holds for every choice of it.
\<close>

record 'a arith =
  f_zero :: 'a
  f_add :: "'a \<Rightarrow> 'a \<Rightarrow> 'a"
  f_sub :: "'a \<Rightarrow> 'a \<Rightarrow> 'a"
  f_mul :: "'a \<Rightarrow> 'a \<Rightarrow> 'a"
  f_relu :: "'a \<Rightarrow> 'a"
  f_logsumexp :: "'a list \<Rightarrow> 'a"
  f_div_nat :: "'a \<Rightarrow> nat \<Rightarrow> 'a"

definition real_arith :: "real arith" where
  "real_arith =
     \<lparr>f_zero = 0, f_add = (+), f_sub = (-), f_mul = (*), f_relu = max 0,
      f_logsumexp = (\<lambda>xs. ln (sum_list (map exp xs))), f_div_nat = (\<lambda>x n. x / real n)\<rparr>"

text \<open>
  The modules the notebook uses. \<^verbatim>\<open>nn.Linear(i, o)\<close> holds a weight of shape
  \<open>[o, i]\<close> and a bias of shape \<open>[o]\<close>, given here by their entries.
\<close>

datatype 'a layer =
  Linear nat nat "nat \<Rightarrow> nat \<Rightarrow> 'a" "nat \<Rightarrow> 'a"
| ReLU
| LogSoftmax nat

definition dot :: "'a arith \<Rightarrow> 'a list \<Rightarrow> 'a list \<Rightarrow> 'a" where
  "dot ar xs ys = foldl (f_add ar) (f_zero ar) (map2 (f_mul ar) xs ys)"

text \<open>
  The linear layer applies to the last dimension, which must be the layer's input size:
  every row \<open>r\<close> of the input gives the row \<open>W r + b\<close> of the output.
\<close>

definition linear_layer ::
  "'a arith \<Rightarrow> nat \<Rightarrow> nat \<Rightarrow> (nat \<Rightarrow> nat \<Rightarrow> 'a) \<Rightarrow> (nat \<Rightarrow> 'a) \<Rightarrow> 'a tensor \<Rightarrow> error + 'a tensor" where
  "linear_layer ar n_in n_out w b x =
     (if shape x = [] \<or> last (shape x) \<noteq> n_in then Inl RuntimeError
      else
        let rows = prod_list (butlast (shape x));
            row = (\<lambda>r. take n_in (drop (r * n_in) (data x)))
        in Inr \<lparr>shape = butlast (shape x) @ [n_out],
                 data = concat (map (\<lambda>r. map (\<lambda>j. f_add ar (dot ar (row r) (map (w j) [0..<n_in])) (b j))
                                            [0..<n_out])
                                [0..<rows])\<rparr>)"

definition relu :: "'a arith \<Rightarrow> 'a tensor \<Rightarrow> 'a tensor" where
  "relu ar x = \<lparr>shape = shape x, data = map (f_relu ar) (data x)\<rparr>"

text \<open>
  \<^verbatim>\<open>nn.LogSoftmax(dim=d)\<close>: every element minus the log-sum-exp of the elements that
  differ from it in coordinate \<open>d\<close> only. The dimension must exist.
\<close>

definition log_softmax :: "'a arith \<Rightarrow> nat \<Rightarrow> 'a tensor \<Rightarrow> error + 'a tensor" where
  "log_softmax ar d x =
     (if length (shape x) \<le> d then Inl IndexError
      else
        let n = shape x ! d;
            inner = prod_list (drop (Suc d) (shape x))
        in Inr \<lparr>shape = shape x,
                 data = map (\<lambda>p. f_sub ar (data x ! p)
                                   (f_logsumexp ar
                                      (map (\<lambda>k. data x ! ((p div (n * inner)) * (n * inner)
                                                            + k * inner + p mod inner))
                                         [0..<n])))
                          [0..<length (data x)]\<rparr>)"

fun layer_forward :: "'a arith \<Rightarrow> 'a layer \<Rightarrow> 'a tensor \<Rightarrow> error + 'a tensor" where
  "layer_forward ar (Linear n_in n_out w b) x = linear_layer ar n_in n_out w b x"
| "layer_forward ar ReLU x = Inr (relu ar x)"
| "layer_forward ar (LogSoftmax d) x = log_softmax ar d x"

text \<open>\<^verbatim>\<open>nn.Sequential\<close>: the modules in order, each on the output of the one before.\<close>

fun forward :: "'a arith \<Rightarrow> 'a layer list \<Rightarrow> 'a tensor \<Rightarrow> error + 'a tensor" where
  "forward ar [] x = Inr x"
| "forward ar (l # ls) x =
     (case layer_forward ar l x of
        Inl e \<Rightarrow> Inl e
      | Inr y \<Rightarrow> forward ar ls y)"

text \<open>
  \<^verbatim>\<open>
  model = nn.Sequential(nn.Linear(784, 128), nn.ReLU(),
                        nn.Linear(128, 64), nn.ReLU(),
                        nn.Linear(64, 10), nn.LogSoftmax(dim=1))
  \<close>
  with the current values of the three weights and biases.
\<close>

definition model ::
  "(nat \<Rightarrow> nat \<Rightarrow> 'a) \<Rightarrow> (nat \<Rightarrow> 'a) \<Rightarrow> (nat \<Rightarrow> nat \<Rightarrow> 'a) \<Rightarrow> (nat \<Rightarrow> 'a) \<Rightarrow>
   (nat \<Rightarrow> nat \<Rightarrow> 'a) \<Rightarrow> (nat \<Rightarrow> 'a) \<Rightarrow> 'a layer list" where
  "model w1 b1 w2 b2 w3 b3 =
     [Linear 784 128 w1 b1, ReLU, Linear 128 64 w2 b2, ReLU, Linear 64 10 w3 b3, LogSoftmax 1]"

subsection \<open>The training loop\<close>













section \<open>Properties of the construction\<close>

lemma slice_index_in_range:
  "0 \<le> i \<Longrightarrow> i \<le> int n \<Longrightarrow> slice_index n i = nat i"
  by (simp add: slice_index_def)

lemma new_db_in_range:
  assumes "shape v = [n]" and "length (data v) = n" and "0 \<le> i" and "i < int n"
  shows "new_db v i = Inr \<lparr>shape = [n - 1], data = without (data v) (nat i)\<rparr>"
proof -
  have a: "slice_t v 0 (Some i) = Inr \<lparr>shape = [nat i], data = take (nat i) (data v)\<rparr>"
    using assms by (simp add: slice_t_def slice_index_in_range Let_def)
  have b: "slice_t v (i + 1) None
             = Inr \<lparr>shape = [n - nat (i + 1)], data = drop (nat (i + 1)) (data v)\<rparr>"
    using assms by (simp add: slice_t_def slice_index_in_range Let_def)
  have s: "nat (i + 1) = Suc (nat i)"
    using assms by simp
  have nd: "new_db v i = cat [\<lparr>shape = [nat i], data = take (nat i) (data v)\<rparr>,
              \<lparr>shape = [n - Suc (nat i)], data = drop (Suc (nat i)) (data v)\<rparr>]"
    by (simp add: new_db_def a b s)
  consider "nat i = 0" "n = 1" | "nat i = 0" "1 < n" | "0 < nat i" "Suc (nat i) = n"
    | "0 < nat i" "Suc (nat i) < n"
    using assms by linarith
  then show ?thesis
  proof cases
    case 1
    then show ?thesis using assms(2) by (simp add: nd cat_def without_def)
  next
    case 2
    then show ?thesis using assms(2) by (simp add: nd cat_def without_def)
  next
    case 3
    then show ?thesis using assms(2) by (auto simp add: nd cat_def without_def)
  next
    case 4
    then show ?thesis using assms(2) by (auto simp add: nd cat_def without_def)
  qed
qed

lemma new_db_total:
  assumes "shape v = [n]"
  shows "\<exists>d. new_db v i = Inr d"
proof -
  obtain la da where a: "slice_t v 0 (Some i) = Inr \<lparr>shape = [la], data = da\<rparr>"
    using assms by (simp add: slice_t_def Let_def)
  obtain lb db where b: "slice_t v (i + 1) None = Inr \<lparr>shape = [lb], data = db\<rparr>"
    using assms by (simp add: slice_t_def Let_def)
  show ?thesis
    by (simp add: new_db_def a b cat_def)
qed

lemma prefix_loop_snoc:
  assumes "shape v = [n]"
  shows "prefix_loop v (is @ [i]) db
           = Inr (Some \<lparr>shape = [slice_index n i], data = take (slice_index n i) (data v)\<rparr>)"
proof (induction "is" arbitrary: db)
  case Nil
  show ?case using assms by (simp add: slice_t_def Let_def slice_index_def)
next
  case (Cons j js)
  have "\<exists>d. slice_t v 0 (Some j) = Inr d"
    using assms by (simp add: slice_t_def Let_def)
  then show ?case using Cons by auto
qed

lemma py_range_Suc: "py_range (Suc n) = py_range n @ [int n]"
  by (simp add: py_range_def)

lemma db_prefix_eq:
  assumes "shape v = [n]"
  shows "db_prefix v = Inr (Some \<lparr>shape = [slice_index n 4999], data = take (slice_index n 4999) (data v)\<rparr>)"
proof -
  have "py_range 5000 = py_range 4999 @ [4999]"
    using py_range_Suc [of 4999] by simp
  then show ?thesis
    using prefix_loop_snoc [OF assms, of "py_range 4999" 4999 None] by (simp add: db_prefix_def)
qed

lemma db_loop_in_range:
  assumes "shape v = [n]" and "length (data v) = n"
  shows "list_all (\<lambda>s. 0 \<le> s \<and> s < int n) idx \<Longrightarrow>
         db_loop v idx acc = Inr (acc @ map (row_of v) idx)"
proof (induction idx arbitrary: acc)
  case Nil
  show ?case by simp
next
  case (Cons s idx)
  have "new_db v s = Inr \<lparr>shape = [n - 1], data = without (data v) (nat s)\<rparr>"
    using assms Cons.prems by (simp add: new_db_in_range)
  then show ?case
    using Cons assms(2) by (simp add: unsqueeze_def row_of_def)
qed

lemma db_loop_length:
  assumes "shape v = [n]"
  shows "\<exists>dbs. db_loop v idx acc = Inr dbs \<and> length dbs = length acc + length idx"
proof (induction idx arbitrary: acc)
  case Nil
  show ?case by simp
next
  case (Cons s idx)
  obtain d where "new_db v s = Inr d"
    using new_db_total [OF assms] by blast
  then show ?case
    using Cons [of "acc @ [unsqueeze d]"] by simp
qed

lemma cat_rows:
  assumes "ts \<noteq> []" and "list_all (\<lambda>t. shape t = [1, c]) ts"
  shows "cat ts = Inr \<lparr>shape = [length ts, c], data = concat (map data ts)\<rparr>"
proof -
  have f: "filter (\<lambda>t. shape t \<noteq> [0]) ts = ts"
    using assms(2) by (induction ts) auto
  have h: "sum_list (map (\<lambda>u. hd (shape u)) us) = length us"
    if "list_all (\<lambda>t. shape t = [1, c]) us" for us :: "'a tensor list"
    using that by (induction us) auto
  obtain t us where ts: "ts = t # us"
    using assms(1) by (cases ts) auto
  have t: "shape t = [1, c]" and us: "list_all (\<lambda>t. shape t = [1, c]) us"
    using assms(2) ts by simp_all
  have tl: "list_all (\<lambda>u. shape u \<noteq> [] \<and> tl (shape u) = [c]) us"
    using us by (induction us) auto
  have "cat (t # us) = Inr \<lparr>shape = [length (t # us), c], data = concat (map data (t # us))\<rparr>"
    using f t tl h [OF us] unfolding ts cat_def by simp
  then show ?thesis
    by (simp add: ts)
qed

lemma concat_block:
  "list_all (\<lambda>xs. length xs = c) xss \<Longrightarrow> k < length xss \<Longrightarrow>
   take c (drop (k * c) (concat xss)) = xss ! k"
proof (induction xss arbitrary: k)
  case Nil
  then show ?case by simp
next
  case (Cons xs xss)
  then show ?case by (cases k) auto
qed

lemma length_concat_blocks:
  "list_all (\<lambda>xs. length xs = c) xss \<Longrightarrow> length (concat xss) = length xss * c"
  by (induction xss) auto

lemma length_without: "i < length xs \<Longrightarrow> length (without xs i) = length xs - 1"
  by (auto simp add: without_def)

lemma stacked_in_range:
  assumes "shape v = [n]" and "length (data v) = n" and "idx \<noteq> []"
    and "list_all (\<lambda>s. 0 \<le> s \<and> s < int n) idx"
  shows "randomized_db v idx = Inr (map (row_of v) idx)"
    and "randomized_db_torch v idx
           = Inr \<lparr>shape = [length idx, n - 1], data = concat (map (\<lambda>s. without (data v) (nat s)) idx)\<rparr>"
proof -
  show r: "randomized_db v idx = Inr (map (row_of v) idx)"
    using db_loop_in_range [OF assms(1,2,4), of "[]"] by (simp add: randomized_db_def)
  have "list_all (\<lambda>t. shape t = [1, n - 1]) (map (row_of v) idx)"
    using assms(2) by (induction idx) (auto simp add: row_of_def)
  then have "cat (map (row_of v) idx)
               = Inr \<lparr>shape = [length (map (row_of v) idx), n - 1],
                      data = concat (map data (map (row_of v) idx))\<rparr>"
    using assms(3) by (intro cat_rows) simp_all
  then show "randomized_db_torch v idx
           = Inr \<lparr>shape = [length idx, n - 1], data = concat (map (\<lambda>s. without (data v) (nat s)) idx)\<rparr>"
    by (simp add: randomized_db_torch_def r row_of_def comp_def)
qed

lemma select_stacked:
  assumes "length (data v) = n" and "list_all (\<lambda>s. 0 \<le> s \<and> s < int n) idx"
    and "k < length idx"
  shows "select \<lparr>shape = [length idx, n - 1],
                  data = concat (map (\<lambda>s. without (data v) (nat s)) idx)\<rparr> k
           = Inr \<lparr>shape = [n - 1], data = without (data v) (nat (idx ! k))\<rparr>"
proof -
  have "list_all (\<lambda>xs. length xs = n - 1) (map (\<lambda>s. without (data v) (nat s)) idx)"
    using assms(1,2) by (auto simp add: list_all_iff length_without)
  then have "take (n - 1) (drop (k * (n - 1)) (concat (map (\<lambda>s. without (data v) (nat s)) idx)))
               = map (\<lambda>s. without (data v) (nat s)) idx ! k"
    using assms(3) by (intro concat_block) simp_all
  then show ?thesis
    using assms(3) by (simp add: select_def)
qed

lemma subseq_without: "subseq (without xs i) xs"
proof -
  have "subseq (drop (Suc i) xs) (drop i xs)"
  proof (cases "i < length xs")
    case True
    then have "drop i xs = xs ! i # drop (Suc i) xs"
      by (simp add: Cons_nth_drop_Suc)
    then show ?thesis
      by (simp add: list_emb_Cons)
  next
    case False
    then show ?thesis
      by simp
  qed
  then have "subseq (take i xs @ drop (Suc i) xs) (take i xs @ drop i xs)"
    by (intro list_emb_append_mono) simp_all
  then show ?thesis
    by (simp add: without_def)
qed

lemma set_without: "set (without xs i) \<subseteq> set xs"
  by (auto simp add: without_def dest: in_set_takeD in_set_dropD)

lemma gt_boolean: "x \<in> set (data (gt xs c)) \<Longrightarrow> x = 0 \<or> x = 1"
  by (auto simp add: gt_def)

lemma missing_record:
  assumes "drawn n 0 (int n) idx" and "\<not> distinct idx"
  shows "\<exists>j<n. int j \<notin> set idx"
proof (rule ccontr)
  assume "\<not> (\<exists>j<n. int j \<notin> set idx)"
  then have "int ` {..<n} \<subseteq> set idx"
    by auto
  then have "card (int ` {..<n}) \<le> card (set idx)"
    by (simp add: card_mono)
  moreover have "card (int ` {..<n}) = n"
    by (simp add: card_image)
  moreover have "card (set idx) < length idx"
    using assms(2) card_length [of idx] distinct_card [of idx] card_distinct [of idx]
    by (cases "card (set idx) = length idx") auto
  moreover have "length idx = n"
    using assms(1) by (simp add: drawn_def)
  ultimately show False
    by simp
qed

subsection \<open>Views and values\<close>

lemma slice_index_le: "slice_index n i \<le> n"
  by (auto simp add: slice_index_def)

lemma well_shaped_read: "valid st t \<Longrightarrow> well_shaped (read st t)"
  by (auto simp add: valid_def read_def well_shaped_def numel_def)

lemma take_drop_block:
  assumes "lo + len \<le> (n :: nat)"
  shows "take (len * r) (drop (lo * r) (take (n * r) xs)) = take (len * r) (drop (lo * r) xs)"
proof -
  have "(lo + len) * r \<le> n * r"
    using assms by (rule mult_le_mono1)
  then have "len * r \<le> n * r - lo * r"
    by (simp add: add_mult_distrib)
  then show ?thesis
    by (simp add: drop_take min_def)
qed

lemma slice_view_refines:
  assumes "valid st t"
  shows "case slice_view t start stop of
           Inl e \<Rightarrow> slice_t (read st t) start stop = Inl e
         | Inr t' \<Rightarrow> slice_t (read st t) start stop = Inr (read st t') \<and> valid st t' \<and>
                     storage t' = storage t"
proof (cases "dims t")
  case Nil
  then show ?thesis
    by (simp add: slice_view_def slice_t_def read_def)
next
  case (Cons n rest)
  define lo where "lo = slice_index n start"
  define hi where "hi = (case stop of None \<Rightarrow> n | Some s \<Rightarrow> slice_index n s)"
  define r where "r = prod_list rest"
  have hi: "hi \<le> n"
    by (simp add: hi_def slice_index_le split: option.split)
  have le: "lo + (hi - lo) \<le> n"
    using hi slice_index_le [of n start] by (simp add: lo_def)
  have sv: "slice_view t start stop
              = Inr \<lparr>storage = storage t, offset = offset t + lo * r, dims = (hi - lo) # rest\<rparr>"
    using Cons by (simp add: slice_view_def Let_def lo_def hi_def r_def)
  have sl: "slice_t (read st t) start stop
              = Inr \<lparr>shape = (hi - lo) # rest,
                     data = take ((hi - lo) * r)
                       (drop (lo * r) (take (n * r) (drop (offset t) (st ! storage t))))\<rparr>"
    using Cons by (simp add: slice_t_def read_def Let_def lo_def hi_def r_def)
  have "(lo + (hi - lo)) * r \<le> n * r"
    using le by (rule mult_le_mono1)
  then have "offset t + lo * r + (hi - lo) * r \<le> offset t + n * r"
    by (simp add: add_mult_distrib)
  then have v: "valid st \<lparr>storage = storage t, offset = offset t + lo * r, dims = (hi - lo) # rest\<rparr>"
    using assms Cons by (simp add: valid_def r_def)
  let ?t' = "\<lparr>storage = storage t, offset = offset t + lo * r, dims = (hi - lo) # rest\<rparr>"
  have "read st ?t' = \<lparr>shape = (hi - lo) # rest,
          data = take ((hi - lo) * r) (drop (lo * r) (drop (offset t) (st ! storage t)))\<rparr>"
    by (simp add: read_def r_def add.commute)
  then have "slice_t (read st t) start stop = Inr (read st ?t')"
    by (simp add: sl take_drop_block [OF le])
  then show ?thesis
    using v by (simp add: sv)
qed

lemma read_prefix:
  assumes "prefix st st'" and "valid st t"
  shows "read st' t = read st t" and "valid st' t"
proof -
  obtain zs where "st' = st @ zs"
    using assms(1) by (auto simp add: prefix_def)
  then have "st' ! storage t = st ! storage t" and "storage t < length st'"
    using assms(2) by (simp_all add: valid_def nth_append)
  then show "read st' t = read st t" and "valid st' t"
    using assms(2) by (simp_all add: read_def valid_def)
qed

lemma list_all_valid_prefix:
  "prefix st st' \<Longrightarrow> list_all (valid st) ts \<Longrightarrow>
   list_all (valid st') ts \<and> map (read st') ts = map (read st) ts"
  by (induction ts) (simp_all add: read_prefix)

lemma length_concat_data:
  "list_all (\<lambda>u. well_shaped u \<and> shape u \<noteq> [] \<and> tl (shape u) = rest) us \<Longrightarrow>
   length (concat (map data us)) = sum_list (map (\<lambda>u. hd (shape u)) us) * prod_list rest"
proof (induction us)
  case Nil
  show ?case by simp
next
  case (Cons u us)
  obtain n where "shape u = n # rest"
    using Cons.prems by (cases "shape u") auto
  then have "length (data u) = hd (shape u) * prod_list rest"
    using Cons.prems by (simp add: well_shaped_def numel_def)
  then show ?case
    using Cons by (simp add: add_mult_distrib)
qed

lemma well_shaped_cat:
  assumes "list_all well_shaped ts" and "cat ts = Inr r"
  shows "well_shaped r"
proof (cases "filter (\<lambda>t. shape t \<noteq> [0]) ts")
  case Nil
  then show ?thesis
    using assms(2) by (auto simp add: cat_def well_shaped_def numel_def split: if_splits)
next
  case (Cons t us)
  have "set (t # us) \<subseteq> set ts"
    using Cons by (metis filter_is_subset)
  then have w: "list_all well_shaped (t # us)"
    using assms(1) unfolding list_all_iff by blast
  obtain n rest where sh: "shape t = n # rest"
    using assms(2) Cons by (cases "shape t") (auto simp add: cat_def split: if_splits)
  have all: "list_all (\<lambda>u. shape u \<noteq> [] \<and> tl (shape u) = rest) us"
    and r: "r = \<lparr>shape = sum_list (map (\<lambda>u. hd (shape u)) (t # us)) # rest,
                  data = concat (map data (t # us))\<rparr>"
    using assms(2) Cons sh by (auto simp add: cat_def split: if_splits)
  have "list_all (\<lambda>u. well_shaped u \<and> shape u \<noteq> [] \<and> tl (shape u) = rest) (t # us)"
    using w all sh by (auto simp add: list_all_iff)
  then have "length (concat (map data (t # us)))
               = sum_list (map (\<lambda>u. hd (shape u)) (t # us)) * prod_list rest"
    by (rule length_concat_data)
  then show ?thesis
    by (simp add: r well_shaped_def numel_def)
qed

lemma cat_st_refines:
  assumes "list_all (valid st) ts"
  shows "case cat_st st ts of
           Inl e \<Rightarrow> cat (map (read st) ts) = Inl e
         | Inr (st', t) \<Rightarrow> cat (map (read st) ts) = Inr (read st' t) \<and> valid st' t \<and>
                           prefix st st'"
proof (cases "cat (map (read st) ts)")
  case (Inl e)
  then show ?thesis
    by (simp add: cat_st_def)
next
  case (Inr r)
  have "list_all well_shaped (map (read st) ts)"
    using assms by (auto simp add: list_all_iff well_shaped_read)
  then have "well_shaped r"
    using Inr by (rule well_shaped_cat)
  then have l: "length (data r) = prod_list (shape r)"
    by (simp add: well_shaped_def numel_def)
  let ?t = "\<lparr>storage = length st, offset = 0, dims = shape r\<rparr>"
  have "read (st @ [data r]) ?t = r" and "valid (st @ [data r]) ?t"
    using l by (simp_all add: read_def valid_def)
  then show ?thesis
    using Inr by (simp add: cat_st_def)
qed

lemma new_db_st_refines:
  assumes "valid st v"
  shows "case new_db_st st v seq of
           Inl e \<Rightarrow> new_db (read st v) seq = Inl e
         | Inr (st', d) \<Rightarrow> new_db (read st v) seq = Inr (read st' d) \<and> valid st' d \<and>
                           prefix st st'"
proof (cases "slice_view v 0 (Some seq)")
  case (Inl e)
  then show ?thesis
    using slice_view_refines [OF assms, of 0 "Some seq"] by (simp add: new_db_st_def new_db_def)
next
  case a: (Inr a)
  then have a': "slice_t (read st v) 0 (Some seq) = Inr (read st a)" "valid st a"
    using slice_view_refines [OF assms, of 0 "Some seq"] by simp_all
  show ?thesis
  proof (cases "slice_view v (seq + 1) None")
    case (Inl e)
    then show ?thesis
      using slice_view_refines [OF assms, of "seq + 1" None] a a'
      by (simp add: new_db_st_def new_db_def)
  next
    case b: (Inr b)
    then have b': "slice_t (read st v) (seq + 1) None = Inr (read st b)" "valid st b"
      using slice_view_refines [OF assms, of "seq + 1" None] by simp_all
    have "list_all (valid st) [a, b]"
      using a' b' by simp
    moreover have "new_db (read st v) seq = cat (map (read st) [a, b])"
      by (simp add: new_db_def a' b')
    moreover have "new_db_st st v seq = cat_st st [a, b]"
      by (simp add: new_db_st_def a b)
    ultimately show ?thesis
      using cat_st_refines [of st "[a, b]"] by (simp only:)
  qed
qed

lemma unsqueeze_view_refines:
  "read st (unsqueeze_view d) = unsqueeze (read st d)"
  "valid st (unsqueeze_view d) = valid st d"
  by (simp_all add: unsqueeze_view_def unsqueeze_def read_def valid_def)

lemma db_loop_st_refines:
  "valid st v \<Longrightarrow> list_all (valid st) acc \<Longrightarrow>
   (case db_loop_st v idx (st, acc) of
      Inl e \<Rightarrow> db_loop (read st v) idx (map (read st) acc) = Inl e
    | Inr (st', dbs) \<Rightarrow> db_loop (read st v) idx (map (read st) acc) = Inr (map (read st') dbs) \<and>
                        list_all (valid st') dbs \<and> prefix st st')"
proof (induction idx arbitrary: st acc)
  case Nil
  then show ?case by simp
next
  case (Cons s idx)
  show ?case
  proof (cases "new_db_st st v s")
    case (Inl e)
    then show ?thesis
      using new_db_st_refines [OF Cons.prems(1), of s] by simp
  next
    case (Inr p)
    obtain st1 d where p: "p = (st1, d)"
      by (cases p)
    have n: "new_db (read st v) s = Inr (read st1 d)" and vd: "valid st1 d"
      and pre: "prefix st st1"
      using new_db_st_refines [OF Cons.prems(1), of s] Inr p by simp_all
    have v1: "valid st1 v" and r1: "read st1 v = read st v"
      using read_prefix [OF pre Cons.prems(1)] by simp_all
    have acc1: "list_all (valid st1) (acc @ [unsqueeze_view d])"
      and m1: "map (read st1) (acc @ [unsqueeze_view d]) = map (read st) acc @ [unsqueeze (read st1 d)]"
      using list_all_valid_prefix [OF pre Cons.prems(2)] vd
      by (simp_all add: unsqueeze_view_refines)
    note ih = Cons.IH [OF v1 acc1, unfolded m1 r1]
    show ?thesis
    proof (cases "db_loop_st v idx (st1, acc @ [unsqueeze_view d])")
      case (Inl e)
      then show ?thesis
        using ih Inr p n by simp
    next
      case (Inr q)
      obtain st2 dbs where q: "q = (st2, dbs)"
        by (cases q)
      have "prefix st st2"
        using ih Inr q pre by (auto intro: prefix_order.trans)
      then show ?thesis
        using ih Inr q \<open>new_db_st st v s = Inr p\<close> p n by simp
    qed
  qed
qed

lemma parallel_dbs_st_refines:
  assumes "valid st v"
  shows "observe (parallel_dbs_st st v idx) = parallel_dbs (read st v) idx"
    and "parallel_dbs_st st v idx = Inr (st', dbs, t) \<Longrightarrow> prefix st st'"
proof -
  note l = db_loop_st_refines [OF assms, of "[]" idx]
  show "observe (parallel_dbs_st st v idx) = parallel_dbs (read st v) idx"
  proof (cases "db_loop_st v idx (st, [])")
    case (Inl e)
    then show ?thesis
      using l by (simp add: observe_def parallel_dbs_st_def parallel_dbs_def randomized_db_def)
  next
    case (Inr p)
    obtain st1 ds where p: "p = (st1, ds)"
      by (cases p)
    have r: "randomized_db (read st v) idx = Inr (map (read st1) ds)"
      and v: "list_all (valid st1) ds"
      using l Inr p by (simp_all add: randomized_db_def)
    show ?thesis
    proof (cases "cat_st st1 ds")
      case (Inl e)
      then show ?thesis
        using cat_st_refines [OF v] Inr p r
        by (simp add: observe_def parallel_dbs_st_def parallel_dbs_def)
    next
      case c: (Inr q)
      obtain st2 u where q: "q = (st2, u)"
        by (cases q)
      have "cat (map (read st1) ds) = Inr (read st2 u)" and "prefix st1 st2"
        using cat_st_refines [OF v] c q by simp_all
      then show ?thesis
        using Inr p r c q list_all_valid_prefix [OF \<open>prefix st1 st2\<close> v]
        by (simp add: observe_def parallel_dbs_st_def parallel_dbs_def)
    qed
  qed
  show "prefix st st'" if run: "parallel_dbs_st st v idx = Inr (st', dbs, t)"
  proof -
    obtain st1 where a: "db_loop_st v idx (st, []) = Inr (st1, dbs)"
      and b: "cat_st st1 dbs = Inr (st', t)"
      using run by (auto simp add: parallel_dbs_st_def split: sum.splits prod.splits)
    have "prefix st st1" and v: "list_all (valid st1) dbs"
      using l a by simp_all
    moreover have "prefix st1 st'"
      using cat_st_refines [OF v] b by simp
    ultimately show ?thesis
      by (auto intro: prefix_order.trans)
  qed
qed

subsection \<open>Shapes through the layers\<close>

lemma linear_layer_batch:
  assumes "shape x = [B, n_in]"
  shows "\<exists>y. linear_layer ar n_in n_out w b x = Inr y \<and> shape y = [B, n_out] \<and> well_shaped y"
  using assms
  by (simp add: linear_layer_def Let_def well_shaped_def numel_def length_concat comp_def sum_list_triv)

lemma relu_batch: "shape (relu ar x) = shape x" "well_shaped x \<Longrightarrow> well_shaped (relu ar x)"
  by (simp_all add: relu_def well_shaped_def numel_def)

lemma log_softmax_batch:
  assumes "shape x = [B, n]" and "well_shaped x"
  shows "\<exists>y. log_softmax ar (Suc 0) x = Inr y \<and> shape y = [B, n] \<and> well_shaped y"
  using assms by (simp add: log_softmax_def Let_def well_shaped_def numel_def)

subsection \<open>The calls of the training loop\<close>




text \<open>
  C1. For a vector \<open>v\<close> of length \<open>n\<close> and an index \<open>i\<close> with \<open>0 \<le> i < n\<close>, the
  leave-one-out construction returns a vector of length \<open>n - 1\<close> whose element \<open>j\<close> is
  \<open>v[j]\<close> for \<open>j < i\<close> and \<open>v[j + 1]\<close> for \<open>j \<ge> i\<close>: it is \<open>v\<close> with record \<open>i\<close>
  removed and the other records in their order.
\<close>

theorem new_db_removes_record:
  assumes "shape v = [n]" and "well_shaped v" and "0 \<le> i" and "i < int n"
  shows "\<exists>d. new_db v i = Inr d \<and> shape d = [n - 1] \<and> length (data d) = n - 1 \<and>
           (\<forall>j < n - 1. data d ! j = (if j < nat i then data v ! j else data v ! (j + 1))) \<and>
           data d = without (data v) (nat i)"
proof -
  have len: "length (data v) = n"
    using assms(1,2) by (simp add: well_shaped_def numel_def)
  let ?d = "\<lparr>shape = [n - 1], data = without (data v) (nat i)\<rparr>"
  have eq: "new_db v i = Inr ?d"
    using assms(1) len assms(3,4) by (rule new_db_in_range)
  have i: "nat i < n"
    using assms(3,4) by simp
  have l: "length (without (data v) (nat i)) = n - 1"
    using len i by (simp add: without_def)
  have nth: "without (data v) (nat i) ! j = (if j < nat i then data v ! j else data v ! (j + 1))"
    if "j < n - 1" for j
    using that len i by (simp add: without_def nth_append)
  show ?thesis
    using eq l nth by simp
qed

theorem new_db_removes_record_witness:
  "new_db \<lparr>shape = [4], data = [1, 0, 1, 1 :: 8 word]\<rparr> 1 = Inr \<lparr>shape = [3], data = [1, 1, 1]\<rparr>"
proof -
  let ?v = "\<lparr>shape = [4], data = [1, 0, 1, 1 :: 8 word]\<rparr>"
  have "shape ?v = [4]" and "well_shaped ?v" and "(0::int) \<le> 1" and "(1::int) < int 4"
    by (simp_all add: well_shaped_def numel_def)
  from new_db_removes_record [OF this]
  obtain d where "new_db ?v 1 = Inr d" and "shape d = [4 - 1]"
    and "data d = without (data ?v) (nat 1)"
    by blast
  then show ?thesis
    by (cases d) (simp add: without_def)
qed

text \<open>
  C2. Over an original vector of length 5000 and 5000 drawn indices, the construction
  produces exactly 5000 databases, each of length 4999 (under the leading dimension of
  its unsqueezed row), and their concatenation is a tensor of shape \<open>[5000, 4999]\<close>;
  the number of databases is the length of the index sequence, whatever the indices.
\<close>

theorem randomized_db_shape:
  assumes "shape v = [5000]" and "well_shaped v" and "drawn 5000 0 5000 idx"
  shows "\<exists>dbs t. randomized_db v idx = Inr dbs \<and> length dbs = 5000 \<and>
           list_all (\<lambda>s. \<exists>d. new_db v s = Inr d \<and> shape d = [4999] \<and> length (data d) = 4999) idx \<and>
           list_all (\<lambda>d. shape d = [1, 4999] \<and> well_shaped d) dbs \<and>
           randomized_db_torch v idx = Inr t \<and> shape t = [5000, 4999] \<and> well_shaped t \<and>
           (\<forall>idx'. \<exists>dbs'. randomized_db v idx' = Inr dbs' \<and> length dbs' = length idx')"
proof -
  have len: "length (data v) = 5000"
    using assms(1,2) by (simp add: well_shaped_def numel_def)
  have l: "length idx = 5000" and r: "list_all (\<lambda>s. 0 \<le> s \<and> s < int 5000) idx"
    using assms(3) by (simp_all add: drawn_def)
  have ne: "idx \<noteq> []"
    using l by auto
  note st = stacked_in_range [OF assms(1) len ne r]
  have w: "without (data v) (nat s) \<in> {xs. length xs = 4999}" if "s \<in> set idx" for s
  proof -
    have "nat s < length (data v)"
      using that r len by (auto simp add: list_all_iff)
    then show ?thesis
      using len by (simp add: length_without)
  qed
  have each: "list_all (\<lambda>s. \<exists>d. new_db v s = Inr d \<and> shape d = [4999] \<and> length (data d) = 4999) idx"
    unfolding list_all_iff
  proof
    fix s
    assume s: "s \<in> set idx"
    then have "0 \<le> s" and "s < int 5000"
      using r by (auto simp add: list_all_iff)
    then have "new_db v s = Inr \<lparr>shape = [5000 - 1], data = without (data v) (nat s)\<rparr>"
      using assms(1) len by (intro new_db_in_range)
    then show "\<exists>d. new_db v s = Inr d \<and> shape d = [4999] \<and> length (data d) = 4999"
      using w [OF s] by simp
  qed
  have rows: "list_all (\<lambda>d. shape d = [1, 4999] \<and> well_shaped d) (map (row_of v) idx)"
    using w len by (auto simp add: list_all_iff row_of_def well_shaped_def numel_def)
  have "list_all (\<lambda>xs. length xs = 4999) (map (\<lambda>s. without (data v) (nat s)) idx)"
    using w by (auto simp add: list_all_iff)
  then have "length (concat (map (\<lambda>s. without (data v) (nat s)) idx)) = 5000 * 4999"
    using l by (simp add: length_concat_blocks)
  then have wft: "well_shaped \<lparr>shape = [5000, 4999],
                     data = concat (map (\<lambda>s. without (data v) (nat s)) idx)\<rparr>"
    by (simp add: well_shaped_def numel_def)
  have any: "\<exists>dbs'. randomized_db v idx' = Inr dbs' \<and> length dbs' = length idx'" for idx'
    using db_loop_length [OF assms(1), of idx' "[]"] by (simp add: randomized_db_def)
  show ?thesis
    using st l each rows wft any by simp
qed

theorem randomized_db_shape_witness:
  "\<exists>dbs t. randomized_db \<lparr>shape = [5000], data = replicate 5000 (1 :: 8 word)\<rparr>
              (replicate 5000 7) = Inr dbs \<and>
           length dbs = 5000 \<and>
           randomized_db_torch \<lparr>shape = [5000], data = replicate 5000 (1 :: 8 word)\<rparr>
              (replicate 5000 7) = Inr t \<and>
           shape t = [5000, 4999]"
proof -
  let ?v = "\<lparr>shape = [5000], data = replicate 5000 (1 :: 8 word)\<rparr>"
  have "shape ?v = [5000]" and "well_shaped ?v" and "drawn 5000 0 5000 (replicate 5000 7)"
    by (simp_all add: well_shaped_def numel_def drawn_def list_all_iff)
  from randomized_db_shape [OF this] show ?thesis
    by blast
qed

text \<open>
  C3. Every constructed database is an order-preserving subsequence of the original
  vector: each entry is an entry of the original, none is altered or added, and no noise
  is applied; the original vector being boolean (each entry 0 or 1), so is every entry
  of every constructed database.
\<close>

theorem databases_are_subsequences:
  assumes "shape v = [n]" and "well_shaped v" and "list_all (\<lambda>s. 0 \<le> s \<and> s < int n) idx"
  shows "\<exists>dbs. randomized_db v idx = Inr dbs \<and>
           (\<forall>d \<in> set dbs. subseq (data d) (data v) \<and> set (data d) \<subseteq> set (data v)) \<and>
           (\<forall>rand. v = ori_vec rand \<longrightarrow>
              (\<forall>x \<in> set (data v). x = 0 \<or> x = 1) \<and>
              (\<forall>d \<in> set dbs. \<forall>x \<in> set (data d). x = 0 \<or> x = 1)) \<and>
           (idx \<noteq> [] \<longrightarrow>
              (\<exists>t. randomized_db_torch v idx = Inr t \<and> set (data t) \<subseteq> set (data v)))"
proof -
  have len: "length (data v) = n"
    using assms(1,2) by (simp add: well_shaped_def numel_def)
  have r: "randomized_db v idx = Inr (map (row_of v) idx)"
    using db_loop_in_range [OF assms(1) len assms(3), of "[]"] by (simp add: randomized_db_def)
  have sub: "subseq (data d) (data v)" if "d \<in> set (map (row_of v) idx)" for d
    using that by (auto simp add: row_of_def subseq_without)
  have mem: "set (data d) \<subseteq> set (data v)" if "d \<in> set (map (row_of v) idx)" for d
    using that by (auto simp add: row_of_def dest: subsetD [OF set_without])
  have bool: "(\<forall>x \<in> set (data v). x = 0 \<or> x = 1) \<and>
              (\<forall>d \<in> set (map (row_of v) idx). \<forall>x \<in> set (data d). x = 0 \<or> x = 1)"
    if "v = ori_vec rand" for rand
  proof -
    have "x = 0 \<or> x = 1" if "x \<in> set (data v)" for x
      using that \<open>v = ori_vec rand\<close> by (auto simp add: ori_vec_def dest: gt_boolean)
    then show ?thesis
      using mem by blast
  qed
  have st: "\<exists>t. randomized_db_torch v idx = Inr t \<and> set (data t) \<subseteq> set (data v)"
    if "idx \<noteq> []"
  proof -
    have "set (without (data v) (nat s)) \<subseteq> set (data v)" for s
      by (rule set_without)
    then have "set (concat (map (\<lambda>s. without (data v) (nat s)) idx)) \<subseteq> set (data v)"
      by auto
    then show ?thesis
      using stacked_in_range(2) [OF assms(1) len that assms(3)] by simp
  qed
  show ?thesis
    using r sub mem bool st by (intro exI [of _ "map (row_of v) idx"]) blast
qed

theorem databases_are_subsequences_witness:
  "\<exists>dbs. randomized_db (ori_vec [0.7, 0.2, 0.9]) [1, 1, 0] = Inr dbs \<and>
         (\<forall>d \<in> set dbs. subseq (data d) (data (ori_vec [0.7, 0.2, 0.9])) \<and>
            (\<forall>x \<in> set (data d). x = 0 \<or> x = 1))"
proof -
  let ?v = "ori_vec [0.7, 0.2, 0.9]"
  have "shape ?v = [3]" and "well_shaped ?v" and "list_all (\<lambda>s. 0 \<le> s \<and> s < int 3) [1, 1, 0]"
    by (simp_all add: ori_vec_def gt_def well_shaped_def numel_def)
  from databases_are_subsequences [OF this] show ?thesis
    by blast
qed



text \<open>
  C5. The 5000 indices are drawn with replacement, so the constructed collection need
  not hold all the distinct leave-one-out databases: for some index sequences two
  databases are built from the same index (two rows of the stacked tensor are equal) and
  some record of the original vector is left out of no database.
\<close>

theorem repeated_index_possible:
  assumes "shape v = [5000]" and "well_shaped v"
  shows "(\<exists>idx dbs t k1 k2 j. drawn 5000 0 5000 idx \<and>
            randomized_db v idx = Inr dbs \<and> randomized_db_torch v idx = Inr t \<and>
            k1 < k2 \<and> k2 < 5000 \<and> idx ! k1 = idx ! k2 \<and> dbs ! k1 = dbs ! k2 \<and>
            select t k1 = select t k2 \<and> (\<exists>r. select t k1 = Inr r) \<and>
            j < 5000 \<and> int j \<notin> set idx) \<and>
         (\<forall>idx. drawn 5000 0 5000 idx \<and> \<not> distinct idx \<longrightarrow> (\<exists>j<5000. int j \<notin> set idx))"
proof -
  have len: "length (data v) = 5000"
    using assms by (simp add: well_shaped_def numel_def)
  let ?idx = "replicate 5000 (0 :: int)"
  have dr: "drawn 5000 0 5000 ?idx"
    by (simp add: drawn_def list_all_iff)
  have r: "list_all (\<lambda>s. 0 \<le> s \<and> s < int 5000) ?idx"
    by (simp add: list_all_iff)
  have ne: "?idx \<noteq> []"
    by simp
  note st = stacked_in_range [OF assms(1) len ne r]
  let ?t = "\<lparr>shape = [length ?idx, 5000 - 1],
             data = concat (map (\<lambda>s. without (data v) (nat s)) ?idx)\<rparr>"
  have s0: "select ?t 0 = Inr \<lparr>shape = [5000 - 1], data = without (data v) (nat (?idx ! 0))\<rparr>"
    using len r by (rule select_stacked) simp
  have s1: "select ?t 1 = Inr \<lparr>shape = [5000 - 1], data = without (data v) (nat (?idx ! 1))\<rparr>"
    using len r by (rule select_stacked) simp
  have i: "?idx ! 0 = ?idx ! 1"
    by simp
  have d: "map (row_of v) ?idx ! 0 = map (row_of v) ?idx ! 1"
    by simp
  have j: "int 1 \<notin> set ?idx"
    by simp
  have ex: "\<exists>idx dbs t k1 k2 j. drawn 5000 0 5000 idx \<and>
            randomized_db v idx = Inr dbs \<and> randomized_db_torch v idx = Inr t \<and>
            k1 < k2 \<and> k2 < 5000 \<and> idx ! k1 = idx ! k2 \<and> dbs ! k1 = dbs ! k2 \<and>
            select t k1 = select t k2 \<and> (\<exists>r. select t k1 = Inr r) \<and>
            j < 5000 \<and> int j \<notin> set idx"
    apply (rule exI [of _ ?idx])
    apply (rule exI [of _ "map (row_of v) ?idx"])
    apply (rule exI [of _ ?t])
    apply (rule exI [of _ 0])
    apply (rule exI [of _ 1])
    apply (rule exI [of _ 1])
    using dr st s0 s1 i d j apply simp
    done
  have all: "\<exists>j<5000. int j \<notin> set idx" if "drawn 5000 0 5000 idx \<and> \<not> distinct idx" for idx
    using missing_record [of 5000 idx] that by simp
  show ?thesis
    using ex all by blast
qed

theorem repeated_index_possible_witness:
  "\<exists>idx t k1 k2 j. drawn 5000 0 5000 idx \<and>
       randomized_db_torch \<lparr>shape = [5000], data = replicate 5000 (1 :: 8 word)\<rparr> idx = Inr t \<and>
       k1 < k2 \<and> k2 < 5000 \<and> idx ! k1 = idx ! k2 \<and> select t k1 = select t k2 \<and>
       j < 5000 \<and> int j \<notin> set idx"
proof -
  let ?v = "\<lparr>shape = [5000], data = replicate 5000 (1 :: 8 word)\<rparr>"
  have "shape ?v = [5000]" and "well_shaped ?v"
    by (simp_all add: well_shaped_def numel_def)
  from repeated_index_possible [OF this] show ?thesis
    by blast
qed

text \<open>
  C6. The construction is deterministic in its inputs: for every original vector and
  every sequence of leave-out indices, two runs of the loop and of the final
  concatenation, in whatever stores they start, show the same databases and the same
  stacked tensor (or the same error); what they show is a function of the vector's value
  and of the indices alone.
\<close>

theorem parallel_dbs_deterministic:
  assumes "valid st1 v1" and "valid st2 v2" and "read st1 v1 = read st2 v2"
  shows "observe (parallel_dbs_st st1 v1 idx) = observe (parallel_dbs_st st2 v2 idx) \<and>
         observe (parallel_dbs_st st1 v1 idx) = parallel_dbs (read st1 v1) idx"
  using parallel_dbs_st_refines(1) [OF assms(1), of idx]
    parallel_dbs_st_refines(1) [OF assms(2), of idx] assms(3)
  by simp

theorem parallel_dbs_deterministic_witness:
  "observe (parallel_dbs_st [[1, 0, 1 :: 8 word]] \<lparr>storage = 0, offset = 0, dims = [3]\<rparr> [2, 0, 0])
     = observe (parallel_dbs_st [[9, 9], [0, 1, 0, 1, 1 :: 8 word]]
         \<lparr>storage = 1, offset = 1, dims = [3]\<rparr> [2, 0, 0])"
proof -
  let ?st1 = "[[1, 0, 1 :: 8 word]]" and ?v1 = "\<lparr>storage = 0, offset = 0, dims = [3]\<rparr>"
  let ?st2 = "[[9, 9], [0, 1, 0, 1, 1 :: 8 word]]" and ?v2 = "\<lparr>storage = 1, offset = 1, dims = [3]\<rparr>"
  have "valid ?st1 ?v1" and "valid ?st2 ?v2" and "read ?st1 ?v1 = read ?st2 ?v2"
    by (simp_all add: valid_def read_def)
  from parallel_dbs_deterministic [OF this] show ?thesis
    by blast
qed



text \<open>
  C8. The classifier maps every batch of \<open>B \<ge> 1\<close> input vectors of dimension 784 to a
  batch of \<open>B\<close> output vectors of dimension 10.
\<close>

theorem model_output_shape:
  assumes "shape x = [B, 784]" and "well_shaped x" and "1 \<le> B"
  shows "\<exists>y. forward ar (model w1 b1 w2 b2 w3 b3) x = Inr y \<and> shape y = [B, 10] \<and> well_shaped y"
proof -
  obtain h1 where h1: "linear_layer ar 784 128 w1 b1 x = Inr h1" "shape h1 = [B, 128]" "well_shaped h1"
    using linear_layer_batch [OF assms(1)] by blast
  have r1: "shape (relu ar h1) = [B, 128]"
    using h1 by (simp add: relu_batch)
  obtain h2 where h2: "linear_layer ar 128 64 w2 b2 (relu ar h1) = Inr h2" "shape h2 = [B, 64]" "well_shaped h2"
    using linear_layer_batch [OF r1] by blast
  have r2: "shape (relu ar h2) = [B, 64]"
    using h2 by (simp add: relu_batch)
  obtain h3 where h3: "linear_layer ar 64 10 w3 b3 (relu ar h2) = Inr h3" "shape h3 = [B, 10]" "well_shaped h3"
    using linear_layer_batch [OF r2] by blast
  obtain y where y: "log_softmax ar (Suc 0) h3 = Inr y" "shape y = [B, 10]" "well_shaped y"
    using log_softmax_batch [OF h3(2,3)] by blast
  have "forward ar (model w1 b1 w2 b2 w3 b3) x = Inr y"
    by (simp add: model_def h1 h2 h3 y)
  then show ?thesis
    using y by simp
qed

theorem model_output_shape_witness:
  "\<exists>y. forward real_arith (model (\<lambda>j i. 1) (\<lambda>j. 0) (\<lambda>j i. 1) (\<lambda>j. 0) (\<lambda>j i. 1) (\<lambda>j. 0))
          \<lparr>shape = [2, 784], data = replicate 1568 1\<rparr> = Inr y \<and>
       shape y = [2, 10] \<and> well_shaped y"
proof -
  let ?x = "\<lparr>shape = [2, 784], data = replicate 1568 (1 :: real)\<rparr>"
  have "shape ?x = [2, 784]" and "well_shaped ?x" and "1 \<le> (2 :: nat)"
    by (simp_all add: well_shaped_def numel_def)
  from model_output_shape [OF this] show ?thesis
    by blast
qed

text \<open>
  C9. The leave-one-out construction is total at the boundary indices: for a vector \<open>v\<close>
  of length \<open>n \<ge> 1\<close> it returns the suffix \<open>v[1:]\<close> at \<open>i = 0\<close> and the prefix
  \<open>v[0:n-1]\<close> at \<open>i = n - 1\<close>, both of length \<open>n - 1\<close>, and raises for no \<open>i\<close> in
  \<open>[0, n)\<close>; the prefix the earlier slicing loop ends with (\<open>n = 5000\<close>) is the
  leave-one-out database of the last index.
\<close>

theorem new_db_boundary:
  assumes "shape v = [n]" and "well_shaped v" and "1 \<le> n"
  shows "(\<forall>i. 0 \<le> i \<and> i < int n \<longrightarrow> (\<exists>d. new_db v i = Inr d \<and> shape d = [n - 1] \<and> well_shaped d)) \<and>
         new_db v 0 = slice_t v 1 None \<and>
         new_db v 0 = Inr \<lparr>shape = [n - 1], data = drop 1 (data v)\<rparr> \<and>
         new_db v (int n - 1) = slice_t v 0 (Some (int n - 1)) \<and>
         new_db v (int n - 1) = Inr \<lparr>shape = [n - 1], data = take (n - 1) (data v)\<rparr> \<and>
         (n = 5000 \<longrightarrow> (\<exists>d. db_prefix v = Inr (Some d) \<and> new_db v 4999 = Inr d))"
proof -
  have len: "length (data v) = n"
    using assms(1,2) by (simp add: well_shaped_def numel_def)
  have inr: "new_db v i = Inr \<lparr>shape = [n - 1], data = without (data v) (nat i)\<rparr>"
    if "0 \<le> i" and "i < int n" for i
    using assms(1) len that by (rule new_db_in_range)
  have c1: "\<exists>d. new_db v i = Inr d \<and> shape d = [n - 1] \<and> well_shaped d" if "0 \<le> i \<and> i < int n" for i
    using inr [of i] that len by (auto simp add: well_shaped_def numel_def without_def)
  have first: "new_db v 0 = Inr \<lparr>shape = [n - 1], data = drop 1 (data v)\<rparr>"
    using inr [of 0] assms(3) by (simp add: without_def)
  have last: "new_db v (int n - 1) = Inr \<lparr>shape = [n - 1], data = take (n - 1) (data v)\<rparr>"
    using inr [of "int n - 1"] assms(3) len by (simp add: without_def nat_diff_distrib')
  have s1: "slice_t v 1 None = Inr \<lparr>shape = [n - 1], data = drop 1 (data v)\<rparr>"
    using assms(1,3) len by (simp add: slice_t_def Let_def slice_index_def)
  have s2: "slice_t v 0 (Some (int n - 1)) = Inr \<lparr>shape = [n - 1], data = take (n - 1) (data v)\<rparr>"
    using assms(1,3) len by (simp add: slice_t_def Let_def slice_index_def nat_diff_distrib')
  have c6: "\<exists>d. db_prefix v = Inr (Some d) \<and> new_db v 4999 = Inr d" if "n = 5000"
    using db_prefix_eq [OF assms(1)] last that by (simp add: slice_index_def)
  show ?thesis
    using c1 first last s1 s2 c6 by simp
qed

theorem new_db_boundary_witness:
  "\<exists>d. db_prefix \<lparr>shape = [5000], data = replicate 5000 (1 :: 8 word)\<rparr> = Inr (Some d) \<and>
       new_db \<lparr>shape = [5000], data = replicate 5000 1\<rparr> 4999 = Inr d \<and>
       new_db \<lparr>shape = [5000], data = replicate 5000 (1 :: 8 word)\<rparr> 0
         = Inr \<lparr>shape = [4999], data = replicate 4999 1\<rparr>"
proof -
  let ?v = "\<lparr>shape = [5000], data = replicate 5000 (1 :: 8 word)\<rparr>"
  have "shape ?v = [5000]" and "well_shaped ?v" and "1 \<le> (5000 :: nat)"
    by (simp_all add: well_shaped_def numel_def)
  note b = new_db_boundary [OF this]
  from b have p: "\<exists>d. db_prefix ?v = Inr (Some d) \<and> new_db ?v 4999 = Inr d"
    by blast
  from b have "new_db ?v 0 = Inr \<lparr>shape = [5000 - 1], data = drop 1 (data ?v)\<rparr>"
    by blast
  then have "new_db ?v 0 = Inr \<lparr>shape = [4999], data = replicate 4999 1\<rparr>"
    by simp
  with p show ?thesis
    by blast
qed

text \<open>
  C10. Constructing the parallel databases leaves the original vector unchanged: after
  the loop and the final concatenation \<open>ori_vec\<close> has the same length 5000 and the same
  entries. Slices and \<^verbatim>\<open>unsqueeze\<close> are views and write nothing,
  \<^verbatim>\<open>torch.cat\<close> writes only the storage it allocates: every storage of the
  initial store is still there, with its contents.
\<close>

theorem ori_vec_unchanged:
  assumes "valid st ori" and "dims ori = [5000]" and "drawn 5000 0 5000 idx"
  shows "\<exists>st' dbs t. parallel_dbs_st st ori idx = Inr (st', dbs, t) \<and>
           prefix st st' \<and> st' ! storage ori = st ! storage ori \<and>
           read st' ori = read st ori \<and> shape (read st' ori) = [5000] \<and>
           length (data (read st' ori)) = 5000 \<and>
           (\<forall>u. valid st u \<longrightarrow> valid st' u \<and> read st' u = read st u)"
proof -
  let ?v = "read st ori"
  have sh: "shape ?v = [5000]"
    using assms(2) by (simp add: read_def)
  have len: "length (data ?v) = 5000"
    using well_shaped_read [OF assms(1)] sh by (simp add: well_shaped_def numel_def)
  have l: "length idx = 5000" and r: "list_all (\<lambda>s. 0 \<le> s \<and> s < int 5000) idx"
    using assms(3) by (simp_all add: drawn_def)
  have ne: "idx \<noteq> []"
    using l by auto
  have "\<exists>p. parallel_dbs ?v idx = Inr p"
    using stacked_in_range [OF sh len ne r]
    by (simp add: parallel_dbs_def randomized_db_torch_def)
  then have "\<exists>p. observe (parallel_dbs_st st ori idx) = Inr p"
    by (simp add: parallel_dbs_st_refines(1) [OF assms(1)])
  then obtain st' dbs t where run: "parallel_dbs_st st ori idx = Inr (st', dbs, t)"
    by (cases "parallel_dbs_st st ori idx") (auto simp add: observe_def)
  have pre: "prefix st st'"
    using run by (rule parallel_dbs_st_refines(2) [OF assms(1)])
  have keep: "valid st' u \<and> read st' u = read st u" if "valid st u" for u
    using read_prefix [OF pre that] by simp
  obtain zs where "st' = st @ zs"
    using pre by (auto simp add: prefix_def)
  then have same: "st' ! storage ori = st ! storage ori"
    using assms(1) by (simp add: valid_def nth_append)
  show ?thesis
    using run pre same keep [OF assms(1)] keep sh len by auto
qed

theorem ori_vec_unchanged_witness:
  "\<exists>st' dbs t.
     parallel_dbs_st [replicate 5000 (1 :: 8 word)] \<lparr>storage = 0, offset = 0, dims = [5000]\<rparr>
       (replicate 5000 3) = Inr (st', dbs, t) \<and>
     read st' \<lparr>storage = 0, offset = 0, dims = [5000]\<rparr>
       = read [replicate 5000 (1 :: 8 word)] \<lparr>storage = 0, offset = 0, dims = [5000]\<rparr>"
proof -
  let ?st = "[replicate 5000 (1 :: 8 word)]" and ?v = "\<lparr>storage = 0, offset = 0, dims = [5000]\<rparr>"
  have "valid ?st ?v" and "dims ?v = [5000]" and "drawn 5000 0 5000 (replicate 5000 3)"
    by (simp_all add: valid_def drawn_def list_all_iff)
  from ori_vec_unchanged [OF this] show ?thesis
    by blast
qed

end
